theory Spec2Isabelle
  imports Main "HOL-Library.Word"
begin

section \<open>Data model of the SLRU replacement policy\<close>

text \<open>
  \<^verbatim>\<open>Tick\<close> is gem5's 64-bit unsigned tick counter and \<^verbatim>\<open>unsigned\<close> a 32-bit
  unsigned integer: both are words, so \<open>+\<close> and \<open>-\<close> wrap and \<open><\<close> is the unsigned order.
  A \<^verbatim>\<open>std::shared_ptr<ReplacementData>\<close> is an address into a store of
  \<^verbatim>\<open>SLRUReplData\<close> objects; two pointers are equal when the addresses are.
\<close>

type_synonym Tick = "64 word"
type_synonym unsigned = "32 word"
type_synonym addr = nat

datatype Segment = Probation | Protected

record SLRUReplData =
  segment :: Segment
  lastTouch :: Tick

text \<open>The constructor \<^verbatim>\<open>SLRUReplData()\<close>: \<^verbatim>\<open>segment(Probation), lastTouch(Tick(0))\<close>.\<close>

definition SLRUReplData_new :: SLRUReplData where
  "SLRUReplData_new = \<lparr>segment = Probation, lastTouch = 0\<rparr>"

text \<open>
  A \<^verbatim>\<open>ReplaceableEntry\<close> is declared by the host simulator; the policy reads only its
  \<^verbatim>\<open>replacementData\<close> member. A \<^verbatim>\<open>ReplaceableEntry*\<close> that may be \<^verbatim>\<open>nullptr\<close> is an
  \<open>option\<close>.
\<close>

record ReplaceableEntry =
  replacementData :: addr

text \<open>The members of class \<^verbatim>\<open>SLRU\<close>.\<close>

record SLRU =
  protectedSize :: unsigned
  probationSize :: unsigned
  protectedEntries :: unsigned
  protectedList :: "addr list"

text \<open>
  The policy object together with the store its pointers refer to. \<open>allocated\<close> counts
  the objects \<^verbatim>\<open>instantiateEntry\<close> has created: addresses below it are the entries the
  policy governs.
\<close>

record world =
  slru :: SLRU
  mem :: "addr \<Rightarrow> SLRUReplData"
  allocated :: nat

datatype error = AssertionFailure | UndefinedBehaviour | InvalidHandle

section \<open>Operations\<close>

text \<open>The constructor: \<^verbatim>\<open>protectedSize(p.protected_size), probationSize(p.probation_size),
  protectedEntries(0)\<close>, with an empty \<^verbatim>\<open>protectedList\<close>.\<close>

definition SLRU_new :: "unsigned \<Rightarrow> unsigned \<Rightarrow> SLRU" where
  "SLRU_new protected_size probation_size =
     \<lparr>protectedSize = protected_size, probationSize = probation_size,
      protectedEntries = 0, protectedList = []\<rparr>"

definition world_new :: "unsigned \<Rightarrow> unsigned \<Rightarrow> world" where
  "world_new protected_size probation_size =
     \<lparr>slru = SLRU_new protected_size probation_size,
      mem = (\<lambda>_. SLRUReplData_new), allocated = 0\<rparr>"

text \<open>
  The block shared by \<^verbatim>\<open>invalidate\<close>, \<^verbatim>\<open>reset\<close> and \<^verbatim>\<open>getVictim\<close>:
  \<^verbatim>\<open>it = std::find(begin, end, rd); if (it != end) { erase(it); protectedEntries--; }\<close>.
  \<^verbatim>\<open>std::find\<close> stops at the first equal element, which is the one \<open>remove1\<close> deletes.
\<close>

definition find_erase :: "SLRU \<Rightarrow> addr \<Rightarrow> SLRU" where
  "find_erase p rd =
     (if rd \<in> set (protectedList p)
      then p\<lparr>protectedList := remove1 rd (protectedList p),
             protectedEntries := protectedEntries p - 1\<rparr>
      else p)"

definition invalidate :: "world \<Rightarrow> addr \<Rightarrow> world" where
  "invalidate w rd =
     (let data = mem w rd;
          p = (if segment data = Protected then find_erase (slru w) rd else slru w)
      in w\<lparr>slru := p, mem := (mem w)(rd := data\<lparr>segment := Probation, lastTouch := 0\<rparr>)\<rparr>)"

definition reset :: "world \<Rightarrow> addr \<Rightarrow> Tick \<Rightarrow> world" where
  "reset w rd curTick =
     (let data = mem w rd;
          p = (if segment data = Protected then find_erase (slru w) rd else slru w)
      in w\<lparr>slru := p, mem := (mem w)(rd := data\<lparr>segment := Probation, lastTouch := curTick\<rparr>)\<rparr>)"

text \<open>
  The loop of \<^verbatim>\<open>touch\<close> that looks for the least recently used protected entry. \<open>i\<close> is
  the position of the iterator \<^verbatim>\<open>it\<close>, the pair is \<^verbatim>\<open>(lru_it, oldest)\<close>.
\<close>

fun lru_loop :: "(addr \<Rightarrow> SLRUReplData) \<Rightarrow> addr list \<Rightarrow> nat \<Rightarrow> nat \<times> Tick \<Rightarrow> nat \<times> Tick" where
  "lru_loop m [] i acc = acc"
| "lru_loop m (e # es) i (lru_it, oldest) =
     (if lastTouch (m e) < oldest
      then lru_loop m es (Suc i) (i, lastTouch (m e))
      else lru_loop m es (Suc i) (lru_it, oldest))"

text \<open>
  The search as \<^verbatim>\<open>touch\<close> runs it: \<^verbatim>\<open>lru_it = protectedList.begin()\<close>,
  \<^verbatim>\<open>oldest = (*lru_it)->lastTouch\<close>, then the loop from the first element. Dereferencing
  \<^verbatim>\<open>begin()\<close> of an empty vector is undefined behaviour: \<open>None\<close>.
\<close>

definition find_lru :: "(addr \<Rightarrow> SLRUReplData) \<Rightarrow> addr list \<Rightarrow> nat option" where
  "find_lru m l =
     (case l of
        [] \<Rightarrow> None
      | first # _ \<Rightarrow> Some (fst (lru_loop m l 0 (0, lastTouch (m first)))))"

text \<open>\<^verbatim>\<open>protectedList.erase(lru_it)\<close>: the element at position \<open>i\<close> is dropped.\<close>

definition erase_at :: "nat \<Rightarrow> 'a list \<Rightarrow> 'a list" where
  "erase_at i xs = take i xs @ drop (Suc i) xs"

text \<open>\<^verbatim>\<open>touch\<close>, with \<open>now\<close> the value of \<^verbatim>\<open>curTick()\<close>.\<close>

definition touch :: "world \<Rightarrow> addr \<Rightarrow> Tick \<Rightarrow> error + world" where
  "touch w rd now =
     (let p = slru w; m = mem w in
      if segment (m rd) = Probation then
        if protectedEntries p < protectedSize p then
          (let m1 = m(rd := (m rd)\<lparr>segment := Protected\<rparr>);
               p1 = p\<lparr>protectedList := protectedList p @ [rd],
                      protectedEntries := protectedEntries p + 1\<rparr>
           in Inr (w\<lparr>slru := p1, mem := m1(rd := (m1 rd)\<lparr>lastTouch := now\<rparr>)\<rparr>))
        else
          (case find_lru m (protectedList p) of
             None \<Rightarrow> Inl UndefinedBehaviour
           | Some lru_it \<Rightarrow>
               (let lru = protectedList p ! lru_it;
                    m1 = m(lru := (m lru)\<lparr>segment := Probation\<rparr>);
                    l1 = erase_at lru_it (protectedList p);
                    m2 = m1(rd := (m1 rd)\<lparr>segment := Protected\<rparr>);
                    p2 = p\<lparr>protectedList := l1 @ [rd]\<rparr>
                in Inr (w\<lparr>slru := p2, mem := m2(rd := (m2 rd)\<lparr>lastTouch := now\<rparr>)\<rparr>)))
      else Inr (w\<lparr>mem := m(rd := (m rd)\<lparr>lastTouch := now\<rparr>)\<rparr>))"

text \<open>
  The candidate loop of \<^verbatim>\<open>getVictim\<close> in \<^verbatim>\<open>slru_rp.cc\<close>. The accumulator is
  \<^verbatim>\<open>(oldestProb, oldestProt, minProb, minProt)\<close>.
\<close>

fun victim_loop ::
  "(addr \<Rightarrow> SLRUReplData) \<Rightarrow> ReplaceableEntry list \<Rightarrow>
   ReplaceableEntry option \<times> ReplaceableEntry option \<times> Tick \<times> Tick \<Rightarrow>
   ReplaceableEntry option \<times> ReplaceableEntry option \<times> Tick \<times> Tick" where
  "victim_loop m [] acc = acc"
| "victim_loop m (ent # ents) (oldestProb, oldestProt, minProb, minProt) =
     (let data = m (replacementData ent) in
      if segment data = Probation then
        (if lastTouch data < minProb
         then victim_loop m ents (Some ent, oldestProt, lastTouch data, minProt)
         else victim_loop m ents (oldestProb, oldestProt, minProb, minProt))
      else
        (if lastTouch data < minProt
         then victim_loop m ents (oldestProb, Some ent, minProb, lastTouch data)
         else victim_loop m ents (oldestProb, oldestProt, minProb, minProt)))"

text \<open>\<^verbatim>\<open>std::numeric_limits<Tick>::max()\<close>.\<close>

definition MaxTick :: Tick where
  "MaxTick = - 1"

text \<open>
  \<^verbatim>\<open>getVictim\<close> of \<^verbatim>\<open>slru_rp.cc\<close>, the variant with the protected fallback. A failed
  \<^verbatim>\<open>assert\<close> aborts the program; the returned pointer is an \<open>option\<close>.
\<close>

definition getVictim ::
  "world \<Rightarrow> ReplaceableEntry list \<Rightarrow> Tick \<Rightarrow> error + (ReplaceableEntry option \<times> world)" where
  "getVictim w candidates curTick =
     (if candidates = [] then Inl AssertionFailure
      else
        (case victim_loop (mem w) candidates (None, None, MaxTick, MaxTick) of
           (oldestProb, oldestProt, minProb, minProt) \<Rightarrow>
             (case oldestProb of
                Some ent \<Rightarrow> Inr (Some ent, w)
              | None \<Rightarrow>
                  (case oldestProt of
                     None \<Rightarrow> Inl AssertionFailure
                   | Some ent \<Rightarrow>
                       (let rd = replacementData ent;
                            m1 = (mem w)(rd := (mem w rd)\<lparr>segment := Probation, lastTouch := curTick\<rparr>)
                        in Inr (Some ent, w\<lparr>slru := find_erase (slru w) rd, mem := m1\<rparr>))))))"

text \<open>
  The second \<^verbatim>\<open>getVictim\<close> of the repository (the copy of \<^verbatim>\<open>slru_rp.cc\<close> embedded in
  \<^verbatim>\<open>script.sh\<close>): only probationary candidates are tracked and the function ends in
  \<^verbatim>\<open>assert(oldestProb && "No probationary entries available")\<close>.
\<close>

fun strict_loop ::
  "(addr \<Rightarrow> SLRUReplData) \<Rightarrow> ReplaceableEntry list \<Rightarrow>
   ReplaceableEntry option \<times> Tick \<Rightarrow> ReplaceableEntry option \<times> Tick" where
  "strict_loop m [] acc = acc"
| "strict_loop m (ent # ents) (oldestProb, minProb) =
     (let data = m (replacementData ent) in
      if segment data = Probation then
        (if lastTouch data < minProb
         then strict_loop m ents (Some ent, lastTouch data)
         else strict_loop m ents (oldestProb, minProb))
      else strict_loop m ents (oldestProb, minProb))"

definition getVictim_strict ::
  "world \<Rightarrow> ReplaceableEntry list \<Rightarrow> error + (ReplaceableEntry option \<times> world)" where
  "getVictim_strict w candidates =
     (if candidates = [] then Inl AssertionFailure
      else
        (case strict_loop (mem w) candidates (None, MaxTick) of
           (oldestProb, minProb) \<Rightarrow>
             (case oldestProb of
                None \<Rightarrow> Inl AssertionFailure
              | Some ent \<Rightarrow> Inr (Some ent, w))))"

text \<open>\<^verbatim>\<open>instantiateEntry\<close>: \<^verbatim>\<open>std::make_shared<SLRUReplData>()\<close>, a new object at a new
  address.\<close>

definition instantiateEntry :: "world \<Rightarrow> addr \<times> world" where
  "instantiateEntry w =
     (allocated w, w\<lparr>mem := (mem w)(allocated w := SLRUReplData_new),
                     allocated := Suc (allocated w)\<rparr>)"

section \<open>Sequences of calls\<close>

text \<open>
  A call of the public interface, with the value \<^verbatim>\<open>curTick()\<close> has when the call is made.
  A caller holds only the pointers \<^verbatim>\<open>instantiateEntry\<close> gave it, so a call on any other
  address is rejected as \<open>InvalidHandle\<close>.
\<close>

datatype call =
    InstantiateEntry
  | Invalidate addr
  | Reset addr Tick
  | Touch addr Tick
  | GetVictim "ReplaceableEntry list" Tick

datatype result = Done | Entry addr | Victim "ReplaceableEntry option"

fun step :: "world \<Rightarrow> call \<Rightarrow> error + (result \<times> world)" where
  "step w InstantiateEntry = (case instantiateEntry w of (a, w') \<Rightarrow> Inr (Entry a, w'))"
| "step w (Invalidate rd) =
     (if rd < allocated w then Inr (Done, invalidate w rd) else Inl InvalidHandle)"
| "step w (Reset rd t) =
     (if rd < allocated w then Inr (Done, reset w rd t) else Inl InvalidHandle)"
| "step w (Touch rd t) =
     (if rd < allocated w
      then (case touch w rd t of Inl e \<Rightarrow> Inl e | Inr w' \<Rightarrow> Inr (Done, w'))
      else Inl InvalidHandle)"
| "step w (GetVictim candidates t) =
     (if list_all (\<lambda>ent. replacementData ent < allocated w) candidates
      then (case getVictim w candidates t of
              Inl e \<Rightarrow> Inl e | Inr (v, w') \<Rightarrow> Inr (Victim v, w'))
      else Inl InvalidHandle)"

fun run :: "world \<Rightarrow> call list \<Rightarrow> error + (result list \<times> world)" where
  "run w [] = Inr ([], w)"
| "run w (c # cs) =
     (case step w c of
        Inl e \<Rightarrow> Inl e
      | Inr (r, w') \<Rightarrow>
          (case run w' cs of Inl e \<Rightarrow> Inl e | Inr (rs, w'') \<Rightarrow> Inr (r # rs, w'')))"

section \<open>The tracker invariant\<close>

text \<open>
  The counter equals the length of \<^verbatim>\<open>protectedList\<close> and stays within
  \<^verbatim>\<open>protectedSize\<close>; the list has no duplicates and holds only entries the policy
  created; an entry is \<open>Protected\<close> exactly when it is in the list.
\<close>

definition tracker_inv :: "world \<Rightarrow> bool" where
  "tracker_inv w \<longleftrightarrow>
     unat (protectedEntries (slru w)) = length (protectedList (slru w)) \<and>
     protectedEntries (slru w) \<le> protectedSize (slru w) \<and>
     distinct (protectedList (slru w)) \<and>
     set (protectedList (slru w)) \<subseteq> {..<allocated w} \<and>
     (\<forall>a<allocated w. segment (mem w a) = Protected \<longleftrightarrow> a \<in> set (protectedList (slru w)))"

section \<open>Example states\<close>

text \<open>One entry just created, under a policy with room for one protected entry.\<close>

definition fresh_world :: world where
  "fresh_world = snd (instantiateEntry (world_new 1 4))"

text \<open>A full protected segment of two entries, one entry in probation and one never used.\<close>

definition demo_world :: world where
  "demo_world =
     \<lparr>slru = \<lparr>protectedSize = 2, probationSize = 2, protectedEntries = 2,
              protectedList = [0, 1]\<rparr>,
      mem = (\<lambda>_. SLRUReplData_new)
              (0 := \<lparr>segment = Protected, lastTouch = 8\<rparr>,
               1 := \<lparr>segment = Protected, lastTouch = 3\<rparr>,
               2 := \<lparr>segment = Probation, lastTouch = 6\<rparr>),
      allocated = 4\<rparr>"

text \<open>
  States in which an entry was last touched at the largest tick. The first is what
  \<^verbatim>\<open>touch\<close> of entry 1 at tick 5 and \<^verbatim>\<open>reset\<close> of entry 0 at tick \<open>MaxTick\<close> leave behind,
  the second what \<^verbatim>\<open>touch\<close> of entry 0 at tick \<open>MaxTick\<close> leaves behind.
\<close>

definition max_tick_world :: world where
  "max_tick_world =
     \<lparr>slru = \<lparr>protectedSize = 1, probationSize = 1, protectedEntries = 1,
              protectedList = [1]\<rparr>,
      mem = (\<lambda>_. SLRUReplData_new)
              (0 := \<lparr>segment = Probation, lastTouch = MaxTick\<rparr>,
               1 := \<lparr>segment = Protected, lastTouch = 5\<rparr>),
      allocated = 2\<rparr>"

definition max_tick_protected_world :: world where
  "max_tick_protected_world =
     \<lparr>slru = \<lparr>protectedSize = 1, probationSize = 1, protectedEntries = 1,
              protectedList = [0]\<rparr>,
      mem = (\<lambda>_. SLRUReplData_new)(0 := \<lparr>segment = Protected, lastTouch = MaxTick\<rparr>),
      allocated = 1\<rparr>"

section \<open>Auxiliary facts\<close>

lemma word_inc_unat: "(x::'a::len word) < y \<Longrightarrow> unat (x + 1) = Suc (unat x)"
proof -
  assume "x < y"
  then have "unat x < unat y" by (simp add: word_less_nat_alt)
  moreover have "unat y < 2 ^ LENGTH('a)" by simp
  ultimately have "unat x + 1 < 2 ^ LENGTH('a)" by linarith
  then have "unat x + unat (1::'a word) < 2 ^ LENGTH('a)" by simp
  then have "unat (x + 1) = unat x + unat (1::'a word)" by (simp only: unat_add_lem)
  then show ?thesis by simp
qed

lemma word_dec_le: "(x::'a::len word) \<le> y \<Longrightarrow> x \<noteq> 0 \<Longrightarrow> x - 1 \<le> y"
  by (simp add: word_le_nat_alt unat_minus_one)

lemma Segment_not_Probation: "(s \<noteq> Probation) = (s = Protected)"
  by (cases s) auto

lemma inv_world_new: "tracker_inv (world_new ps qs)"
  by (simp add: tracker_inv_def world_new_def SLRU_new_def SLRUReplData_new_def)

lemma inv_instantiateEntry: "tracker_inv w \<Longrightarrow> tracker_inv (snd (instantiateEntry w))"
  by (auto simp: tracker_inv_def instantiateEntry_def SLRUReplData_new_def less_Suc_eq)

lemma inv_find_erase:
  assumes "tracker_inv w" "rd < allocated w"
  shows "tracker_inv (w\<lparr>slru := (if segment (mem w rd) = Protected then find_erase (slru w) rd else slru w),
            mem := (mem w)(rd := (mem w rd)\<lparr>segment := Probation, lastTouch := t\<rparr>)\<rparr>)"
proof (cases "segment (mem w rd) = Protected")
  case True
  with assms have mem: "rd \<in> set (protectedList (slru w))"
    by (simp add: tracker_inv_def)
  then have "length (protectedList (slru w)) \<noteq> 0" by auto
  with assms have nz: "protectedEntries (slru w) \<noteq> 0"
    by (auto simp: tracker_inv_def)
  from assms nz have le: "protectedEntries (slru w) - 1 \<le> protectedSize (slru w)"
    by (simp add: tracker_inv_def word_dec_le)
  from assms mem nz le True show ?thesis
    by (auto simp: tracker_inv_def find_erase_def unat_minus_one length_remove1
        distinct_remove1 set_remove1_eq)
next
  case False
  then have "segment (mem w rd) = Probation" by (cases "segment (mem w rd)") auto
  with assms show ?thesis
    by (auto simp: tracker_inv_def)
qed

lemma inv_invalidate: "tracker_inv w \<Longrightarrow> rd < allocated w \<Longrightarrow> tracker_inv (invalidate w rd)"
  using inv_find_erase [of w rd 0] by (simp add: invalidate_def Let_def)

lemma inv_reset: "tracker_inv w \<Longrightarrow> rd < allocated w \<Longrightarrow> tracker_inv (reset w rd t)"
  using inv_find_erase [of w rd t] by (simp add: reset_def Let_def)

lemma lru_loop_range:
  "fst (lru_loop m es i (j, oldest)) = j \<or>
   (i \<le> fst (lru_loop m es i (j, oldest)) \<and> fst (lru_loop m es i (j, oldest)) < i + length es)"
proof (induction es arbitrary: i j oldest)
  case Nil
  then show ?case by simp
next
  case (Cons e es)
  show ?case
    using Cons.IH [of "Suc i" i "lastTouch (m e)"] Cons.IH [of "Suc i" j oldest]
    by auto
qed

lemma lru_it_in_range:
  "l \<noteq> [] \<Longrightarrow> fst (lru_loop m l 0 (0, t)) < length l"
  using lru_loop_range [of m l 0 0 t] by auto

lemma erase_at_remove1:
  "distinct xs \<Longrightarrow> i < length xs \<Longrightarrow> erase_at i xs = remove1 (xs ! i) xs"
proof (induction xs arbitrary: i)
  case Nil
  then show ?case by simp
next
  case (Cons x xs)
  show ?case
  proof (cases i)
    case 0
    then show ?thesis by (simp add: erase_at_def)
  next
    case (Suc k)
    with Cons.prems have k: "k < length xs" and d: "distinct xs" and nx: "x \<notin> set xs"
      by auto
    from k nx have "x \<noteq> xs ! k" by (metis nth_mem)
    with Cons.IH [OF d k] Suc show ?thesis
      by (simp add: erase_at_def)
  qed
qed

lemma find_lru_eq:
  "l \<noteq> [] \<Longrightarrow> find_lru m l = Some (fst (lru_loop m l 0 (0, lastTouch (m (hd l)))))"
  by (cases l) (simp_all add: find_lru_def del: lru_loop.simps)

lemma find_lru_Some:
  assumes "find_lru m l = Some k"
  shows "k < length l"
proof -
  from assms have ne: "l \<noteq> []" by (auto simp: find_lru_def)
  with assms have "k = fst (lru_loop m l 0 (0, lastTouch (m (hd l))))"
    by (simp add: find_lru_eq)
  with ne show ?thesis by (simp add: lru_it_in_range)
qed

lemma find_lru_None: "find_lru m l = None \<longleftrightarrow> l = []"
  by (simp add: find_lru_def split: list.splits)

lemma inv_touch:
  assumes inv: "tracker_inv w" and rd: "rd < allocated w" and ok: "touch w rd now = Inr w'"
  shows "tracker_inv w'"
proof (cases "segment (mem w rd) = Probation")
  case False
  with ok have w': "w' = w\<lparr>mem := (mem w)(rd := (mem w rd)\<lparr>lastTouch := now\<rparr>)\<rparr>"
    by (auto simp: touch_def Let_def)
  from inv show ?thesis
    by (auto simp: w' tracker_inv_def)
next
  case prob: True
  with inv rd have notin: "rd \<notin> set (protectedList (slru w))"
    by (auto simp: tracker_inv_def)
  show ?thesis
  proof (cases "protectedEntries (slru w) < protectedSize (slru w)")
    case True
    with prob ok have w': "w' = w\<lparr>slru := (slru w)\<lparr>protectedList := protectedList (slru w) @ [rd],
                      protectedEntries := protectedEntries (slru w) + 1\<rparr>,
          mem := (mem w)(rd := (mem w rd)\<lparr>segment := Protected, lastTouch := now\<rparr>)\<rparr>"
      by (auto simp: touch_def Let_def)
    from inv rd notin True show ?thesis
      by (auto simp: w' tracker_inv_def word_inc_unat inc_le)
  next
    case False
    with prob ok obtain k where fl: "find_lru (mem w) (protectedList (slru w)) = Some k"
      by (auto simp: touch_def Let_def split: option.splits)
    define lru where "lru = protectedList (slru w) ! k"
    from fl have k: "k < length (protectedList (slru w))" by (rule find_lru_Some)
    from inv have dist: "distinct (protectedList (slru w))" by (simp add: tracker_inv_def)
    from k have lru_in: "lru \<in> set (protectedList (slru w))" by (simp add: lru_def)
    with notin have ne: "lru \<noteq> rd" by auto
    have er: "erase_at k (protectedList (slru w)) = remove1 lru (protectedList (slru w))"
      unfolding lru_def by (rule erase_at_remove1 [OF dist k])
    from prob False ok fl ne have w': "w' = w\<lparr>slru := (slru w)\<lparr>protectedList := remove1 lru (protectedList (slru w)) @ [rd]\<rparr>,
          mem := (mem w)(lru := (mem w lru)\<lparr>segment := Probation\<rparr>,
                         rd := (mem w rd)\<lparr>segment := Protected, lastTouch := now\<rparr>)\<rparr>"
      by (auto simp: touch_def Let_def lru_def [symmetric] er)
    from lru_in have len: "length (protectedList (slru w)) \<noteq> 0" by auto
    from inv rd notin ne lru_in dist len show ?thesis
      by (auto simp: w' tracker_inv_def length_remove1)
  qed
qed

lemma victim_loop_prot:
  "victim_loop m ents (a, b, c, d) = (a', Some e, c', d') \<Longrightarrow>
   b = Some e \<or> (e \<in> set ents \<and> segment (m (replacementData e)) = Protected)"
proof (induction ents arbitrary: a b c d)
  case Nil
  then show ?case by simp
next
  case (Cons x xs)
  then show ?case
    by (fastforce simp: Let_def Segment_not_Probation split: if_splits)
qed

lemma victim_loop_prob:
  "victim_loop m ents (a, b, c, d) = (Some e, b', c', d') \<Longrightarrow>
   a = Some e \<or> (e \<in> set ents \<and> segment (m (replacementData e)) = Probation)"
proof (induction ents arbitrary: a b c d)
  case Nil
  then show ?case by simp
next
  case (Cons x xs)
  then show ?case
    by (fastforce simp: Let_def split: if_splits)
qed

lemma inv_getVictim:
  assumes inv: "tracker_inv w" and al: "list_all (\<lambda>ent. replacementData ent < allocated w) candidates"
    and ok: "getVictim w candidates t = Inr (v, w')"
  shows "tracker_inv w'"
proof -
  obtain a b c d where vl: "victim_loop (mem w) candidates (None, None, MaxTick, MaxTick) = (a, b, c, d)"
    by (metis prod_cases4)
  show ?thesis
  proof (cases a)
    case (Some ent)
    with ok vl have "w' = w" by (auto simp: getVictim_def split: if_splits)
    with inv show ?thesis by simp
  next
    case None
    with ok vl obtain ent where b: "b = Some ent"
      by (auto simp: getVictim_def split: if_splits option.splits)
    from vl b victim_loop_prot [of "mem w" candidates None None MaxTick MaxTick a ent c d]
    have ent: "ent \<in> set candidates" and seg: "segment (mem w (replacementData ent)) = Protected"
      by auto
    from ent al have rd: "replacementData ent < allocated w" by (auto simp: list_all_iff)
    from ok vl None b have w': "w' = w\<lparr>slru := (if segment (mem w (replacementData ent)) = Protected
           then find_erase (slru w) (replacementData ent) else slru w),
        mem := (mem w)(replacementData ent := (mem w (replacementData ent))\<lparr>segment := Probation, lastTouch := t\<rparr>)\<rparr>"
      by (auto simp: getVictim_def Let_def seg split: if_splits)
    show ?thesis unfolding w' by (rule inv_find_erase [OF inv rd])
  qed
qed

lemma inv_step:
  "tracker_inv w \<Longrightarrow> step w c = Inr (r, w') \<Longrightarrow> tracker_inv w'"
proof (cases c)
  case InstantiateEntry
  assume "tracker_inv w" "step w c = Inr (r, w')"
  with InstantiateEntry inv_instantiateEntry [of w] show ?thesis
    by (auto split: prod.splits)
next
  case (Invalidate rd)
  assume "tracker_inv w" "step w c = Inr (r, w')"
  with Invalidate show ?thesis by (auto simp: inv_invalidate split: if_splits)
next
  case (Reset rd t)
  assume "tracker_inv w" "step w c = Inr (r, w')"
  with Reset show ?thesis by (auto simp: inv_reset split: if_splits)
next
  case (Touch rd t)
  assume "tracker_inv w" "step w c = Inr (r, w')"
  with Touch show ?thesis by (auto intro: inv_touch split: if_splits sum.splits)
next
  case (GetVictim cs t)
  assume "tracker_inv w" "step w c = Inr (r, w')"
  with GetVictim show ?thesis by (auto intro: inv_getVictim split: if_splits sum.splits)
qed

lemma inv_run:
  "tracker_inv w \<Longrightarrow> run w cs = Inr (rs, w') \<Longrightarrow> tracker_inv w'"
proof (induction cs arbitrary: w rs)
  case Nil
  then show ?case by simp
next
  case (Cons c cs)
  from Cons.prems(2) obtain r w1 rs1 where s: "step w c = Inr (r, w1)" and r: "run w1 cs = Inr (rs1, w')"
    by (auto split: sum.splits)
  from inv_step [OF Cons.prems(1) s] have "tracker_inv w1" .
  from Cons.IH [OF this r] show ?case .
qed

lemma distinct_count_list:
  "distinct xs \<Longrightarrow> x \<in> set xs \<Longrightarrow> count_list xs x = 1"
  by (induction xs) auto

lemma touch_defined:
  assumes inv: "tracker_inv w" and ps: "protectedSize (slru w) \<noteq> 0"
  shows "\<exists>w'. touch w rd now = Inr w'"
proof (cases "segment (mem w rd) = Probation \<and> \<not> protectedEntries (slru w) < protectedSize (slru w)")
  case False
  then show ?thesis by (auto simp: touch_def Let_def)
next
  case True
  with inv have "protectedEntries (slru w) = protectedSize (slru w)"
    by (auto simp: tracker_inv_def)
  with ps have "unat (protectedEntries (slru w)) \<noteq> 0"
    by (simp add: unat_eq_0)
  with inv have "protectedList (slru w) \<noteq> []"
    by (auto simp: tracker_inv_def)
  then have "find_lru (mem w) (protectedList (slru w)) \<noteq> None"
    by (simp add: find_lru_None)
  with True show ?thesis by (auto simp: touch_def Let_def)
qed

text \<open>
  In a state that satisfies the invariant, a full protected segment of positive capacity
  gives \<^verbatim>\<open>touch\<close> a list that is not empty, has no duplicates and does not hold the
  probationary entry being touched.
\<close>

lemma tracker_inv_full:
  assumes "tracker_inv w" and "rd < allocated w" and "segment (mem w rd) = Probation"
    and "protectedEntries (slru w) = protectedSize (slru w)" and "protectedSize (slru w) \<noteq> 0"
  shows "protectedList (slru w) \<noteq> [] \<and> distinct (protectedList (slru w)) \<and>
         rd \<notin> set (protectedList (slru w))"
proof -
  from assms(4,5) have "unat (protectedEntries (slru w)) \<noteq> 0"
    by (simp add: unat_eq_0)
  with assms(1) have "protectedList (slru w) \<noteq> []"
    by (auto simp: tracker_inv_def)
  with assms(1-3) show ?thesis
    by (auto simp: tracker_inv_def)
qed

lemma strict_loop_prob:
  "strict_loop m ents (a, c) = (Some e, c') \<Longrightarrow>
   a = Some e \<or> (e \<in> set ents \<and> segment (m (replacementData e)) = Probation)"
proof (induction ents arbitrary: a c)
  case Nil
  then show ?case by simp
next
  case (Cons x xs)
  then show ?case
    by (fastforce simp: Let_def split: if_splits)
qed

lemma lru_loop_min:
  assumes "l = pre @ es" and "i = length pre" and "j < length l"
    and "oldest = lastTouch (m (l ! j))"
    and "\<forall>k<i. oldest \<le> lastTouch (m (l ! k))"
    and "\<forall>k<j. oldest < lastTouch (m (l ! k))"
  shows "fst (lru_loop m es i (j, oldest)) < length l \<and>
         (\<forall>k<length l. lastTouch (m (l ! fst (lru_loop m es i (j, oldest)))) \<le> lastTouch (m (l ! k))) \<and>
         (\<forall>k<fst (lru_loop m es i (j, oldest)).
             lastTouch (m (l ! fst (lru_loop m es i (j, oldest)))) < lastTouch (m (l ! k)))"
  using assms
proof (induction es arbitrary: pre i j oldest)
  case Nil
  then show ?case by simp
next
  case (Cons e es)
  from Cons.prems(1,2) have li: "l ! i = e" by simp
  from Cons.prems(1) have l': "l = (pre @ [e]) @ es" by simp
  from Cons.prems(2) have i': "Suc i = length (pre @ [e])" by simp
  from Cons.prems(1,2) have il: "i < length l" by simp
  show ?case
  proof (cases "lastTouch (m e) < oldest")
    case True
    have a: "lastTouch (m e) = lastTouch (m (l ! i))" by (simp add: li)
    have b: "\<forall>k<Suc i. lastTouch (m e) \<le> lastTouch (m (l ! k))"
      using True Cons.prems(5) li by (auto simp: less_Suc_eq)
    have c: "\<forall>k<i. lastTouch (m e) < lastTouch (m (l ! k))"
      using True Cons.prems(5) by (auto intro: less_le_trans)
    from Cons.IH [OF l' i' il a b c] True show ?thesis by simp
  next
    case False
    have b: "\<forall>k<Suc i. oldest \<le> lastTouch (m (l ! k))"
      using False Cons.prems(5) li by (auto simp: less_Suc_eq)
    from Cons.IH [OF l' i' Cons.prems(3) Cons.prems(4) b Cons.prems(6)] False
    show ?thesis by simp
  qed
qed

lemma find_lru_min:
  assumes "find_lru m l = Some k"
  shows "k < length l \<and> (\<forall>j<length l. lastTouch (m (l ! k)) \<le> lastTouch (m (l ! j))) \<and>
         (\<forall>j<k. lastTouch (m (l ! k)) < lastTouch (m (l ! j)))"
proof -
  from assms have ne: "l \<noteq> []" by (auto simp: find_lru_def)
  with assms have k: "k = fst (lru_loop m l 0 (0, lastTouch (m (hd l))))"
    by (simp add: find_lru_eq)
  from ne have h: "lastTouch (m (hd l)) = lastTouch (m (l ! 0))"
    by (simp add: hd_conv_nth)
  from ne have z: "0 < length l" by simp
  from lru_loop_min [of l "[]" l 0 0 "lastTouch (m (hd l))" m] z h show ?thesis
    unfolding k by simp
qed

lemma demo_world_reachable:
  "map_sum id snd (run (world_new 2 2)
      [InstantiateEntry, InstantiateEntry, InstantiateEntry, InstantiateEntry,
       Touch 0 1, Touch 1 3, Reset 2 6, Touch 0 8]) = Inr demo_world"
  by (simp add: demo_world_def world_new_def SLRU_new_def SLRUReplData_new_def
      instantiateEntry_def touch_def reset_def Let_def fun_eq_iff)

lemma max_tick_world_reachable:
  "map_sum id snd (run (world_new 1 1)
      [InstantiateEntry, InstantiateEntry, Touch 1 5, Reset 0 MaxTick]) = Inr max_tick_world"
  by (simp add: max_tick_world_def world_new_def SLRU_new_def SLRUReplData_new_def
      instantiateEntry_def touch_def reset_def Let_def fun_eq_iff)

lemma max_tick_protected_world_reachable:
  "map_sum id snd (run (world_new 1 1) [InstantiateEntry, Touch 0 MaxTick])
     = Inr max_tick_protected_world"
  by (simp add: max_tick_protected_world_def world_new_def SLRU_new_def SLRUReplData_new_def
      instantiateEntry_def touch_def Let_def fun_eq_iff)

subsection \<open>What \<^verbatim>\<open>getVictim\<close> computes\<close>

lemma victim_loop_strict:
  "fst (victim_loop m ents (a, b, c, d)) = fst (strict_loop m ents (a, c)) \<and>
   fst (snd (snd (victim_loop m ents (a, b, c, d)))) = snd (strict_loop m ents (a, c))"
  by (induction ents arbitrary: a b c d) (simp_all add: Let_def)

lemma getVictim_strict_agrees:
  assumes "getVictim_strict w cs = Inr r"
  shows "getVictim w cs now = Inr r"
proof -
  obtain a c where sl: "strict_loop (mem w) cs (None, MaxTick) = (a, c)"
    by (cases "strict_loop (mem w) cs (None, MaxTick)") auto
  obtain a' b' c' d' where vl: "victim_loop (mem w) cs (None, None, MaxTick, MaxTick) = (a', b', c', d')"
    by (metis prod_cases4)
  from victim_loop_strict [of "mem w" cs None None MaxTick MaxTick] sl vl have "a' = a"
    by simp
  with assms sl vl show ?thesis
    by (auto simp: getVictim_def getVictim_strict_def split: if_splits option.splits)
qed

lemma strict_loop_first_min:
  assumes "strict_loop m ents (a, c) = (r, c')"
  shows "(r = a \<and> c' = c \<and>
          (\<forall>x\<in>set ents. segment (m (replacementData x)) = Probation \<longrightarrow>
                        \<not> lastTouch (m (replacementData x)) < c)) \<or>
         (\<exists>pre e post. ents = pre @ e # post \<and> r = Some e \<and>
            c' = lastTouch (m (replacementData e)) \<and>
            segment (m (replacementData e)) = Probation \<and>
            lastTouch (m (replacementData e)) < c \<and>
            (\<forall>x\<in>set pre. segment (m (replacementData x)) = Probation \<longrightarrow>
               lastTouch (m (replacementData e)) < lastTouch (m (replacementData x))) \<and>
            (\<forall>x\<in>set post. segment (m (replacementData x)) = Probation \<longrightarrow>
               lastTouch (m (replacementData e)) \<le> lastTouch (m (replacementData x))))"
  using assms
proof (induction ents arbitrary: a c)
  case Nil
  then show ?case by simp
next
  case (Cons x xs)
  let ?t = "\<lambda>y. lastTouch (m (replacementData y))"
  let ?p = "\<lambda>y. segment (m (replacementData y)) = Probation"
  show ?case
  proof (cases "?p x \<and> ?t x < c")
    case True
    with Cons.prems have rec: "strict_loop m xs (Some x, ?t x) = (r, c')"
      by (simp add: Let_def)
    from Cons.IH [OF rec] show ?thesis
    proof (elim disjE exE conjE)
      assume "r = Some x" "c' = ?t x" and none: "\<forall>y\<in>set xs. ?p y \<longrightarrow> \<not> ?t y < ?t x"
      with True have "x # xs = [] @ x # xs \<and> r = Some x \<and> c' = ?t x \<and> ?p x \<and> ?t x < c \<and>
          (\<forall>y\<in>set []. ?p y \<longrightarrow> ?t x < ?t y) \<and> (\<forall>y\<in>set xs. ?p y \<longrightarrow> ?t x \<le> ?t y)"
        by (auto simp: not_less)
      then show ?thesis by blast
    next
      fix pre e post
      assume xs: "xs = pre @ e # post" and r: "r = Some e" and c': "c' = ?t e" and pe: "?p e"
        and lt: "?t e < ?t x"
        and pre: "\<forall>y\<in>set pre. ?p y \<longrightarrow> ?t e < ?t y"
        and post: "\<forall>y\<in>set post. ?p y \<longrightarrow> ?t e \<le> ?t y"
      from lt True have "?t e < c" by (auto intro: less_trans)
      with xs r c' pe lt pre post
      have "x # xs = (x # pre) @ e # post \<and> r = Some e \<and> c' = ?t e \<and> ?p e \<and> ?t e < c \<and>
          (\<forall>y\<in>set (x # pre). ?p y \<longrightarrow> ?t e < ?t y) \<and> (\<forall>y\<in>set post. ?p y \<longrightarrow> ?t e \<le> ?t y)"
        by simp
      then show ?thesis by blast
    qed
  next
    case False
    with Cons.prems have rec: "strict_loop m xs (a, c) = (r, c')"
      by (auto simp: Let_def split: if_splits)
    from Cons.IH [OF rec] show ?thesis
    proof (elim disjE exE conjE)
      assume "r = a" "c' = c" "\<forall>y\<in>set xs. ?p y \<longrightarrow> \<not> ?t y < c"
      with False show ?thesis by auto
    next
      fix pre e post
      assume xs: "xs = pre @ e # post" and r: "r = Some e" and c': "c' = ?t e" and pe: "?p e"
        and lt: "?t e < c"
        and pre: "\<forall>y\<in>set pre. ?p y \<longrightarrow> ?t e < ?t y"
        and post: "\<forall>y\<in>set post. ?p y \<longrightarrow> ?t e \<le> ?t y"
      from False lt have "?p x \<longrightarrow> ?t e < ?t x" by (auto simp: not_less intro: less_le_trans)
      with xs r c' pe lt pre post
      have "x # xs = (x # pre) @ e # post \<and> r = Some e \<and> c' = ?t e \<and> ?p e \<and> ?t e < c \<and>
          (\<forall>y\<in>set (x # pre). ?p y \<longrightarrow> ?t e < ?t y) \<and> (\<forall>y\<in>set post. ?p y \<longrightarrow> ?t e \<le> ?t y)"
        by simp
      then show ?thesis by blast
    qed
  qed
qed

lemma word_less_MaxTick: "(t < MaxTick) = (t \<noteq> MaxTick)"
  by (simp add: MaxTick_def word_order.not_eq_extremum)

lemma victim_loop_prot_first_min:
  assumes "victim_loop m ents (a, b, c, d) = (a', r, c', d')"
  shows "(r = b \<and> d' = d \<and>
          (\<forall>x\<in>set ents. segment (m (replacementData x)) = Protected \<longrightarrow>
                        \<not> lastTouch (m (replacementData x)) < d)) \<or>
         (\<exists>pre e post. ents = pre @ e # post \<and> r = Some e \<and>
            d' = lastTouch (m (replacementData e)) \<and>
            segment (m (replacementData e)) = Protected \<and>
            lastTouch (m (replacementData e)) < d \<and>
            (\<forall>x\<in>set pre. segment (m (replacementData x)) = Protected \<longrightarrow>
               lastTouch (m (replacementData e)) < lastTouch (m (replacementData x))) \<and>
            (\<forall>x\<in>set post. segment (m (replacementData x)) = Protected \<longrightarrow>
               lastTouch (m (replacementData e)) \<le> lastTouch (m (replacementData x))))"
  using assms
proof (induction ents arbitrary: a b c d)
  case Nil
  then show ?case by simp
next
  case (Cons x xs)
  let ?t = "\<lambda>y. lastTouch (m (replacementData y))"
  let ?p = "\<lambda>y. segment (m (replacementData y)) = Protected"
  show ?case
  proof (cases "?p x \<and> ?t x < d")
    case True
    with Cons.prems have rec: "victim_loop m xs (a, Some x, c, ?t x) = (a', r, c', d')"
      by (simp add: Let_def)
    from Cons.IH [OF rec] show ?thesis
    proof (elim disjE exE conjE)
      assume "r = Some x" "d' = ?t x" and none: "\<forall>y\<in>set xs. ?p y \<longrightarrow> \<not> ?t y < ?t x"
      with True have "x # xs = [] @ x # xs \<and> r = Some x \<and> d' = ?t x \<and> ?p x \<and> ?t x < d \<and>
          (\<forall>y\<in>set []. ?p y \<longrightarrow> ?t x < ?t y) \<and> (\<forall>y\<in>set xs. ?p y \<longrightarrow> ?t x \<le> ?t y)"
        by (auto simp: not_less)
      then show ?thesis by blast
    next
      fix pre e post
      assume xs: "xs = pre @ e # post" and r: "r = Some e" and d': "d' = ?t e" and pe: "?p e"
        and lt: "?t e < ?t x"
        and pre: "\<forall>y\<in>set pre. ?p y \<longrightarrow> ?t e < ?t y"
        and post: "\<forall>y\<in>set post. ?p y \<longrightarrow> ?t e \<le> ?t y"
      from lt True have "?t e < d" by (auto intro: less_trans)
      with xs r d' pe lt pre post
      have "x # xs = (x # pre) @ e # post \<and> r = Some e \<and> d' = ?t e \<and> ?p e \<and> ?t e < d \<and>
          (\<forall>y\<in>set (x # pre). ?p y \<longrightarrow> ?t e < ?t y) \<and> (\<forall>y\<in>set post. ?p y \<longrightarrow> ?t e \<le> ?t y)"
        by simp
      then show ?thesis by blast
    qed
  next
    case False
    with Cons.prems obtain a2 c2 where rec: "victim_loop m xs (a2, b, c2, d) = (a', r, c', d')"
      by (cases "segment (m (replacementData x))") (auto simp: Let_def split: if_splits)
    from Cons.IH [OF rec] show ?thesis
    proof (elim disjE exE conjE)
      assume "r = b" "d' = d" "\<forall>y\<in>set xs. ?p y \<longrightarrow> \<not> ?t y < d"
      with False show ?thesis by auto
    next
      fix pre e post
      assume xs: "xs = pre @ e # post" and r: "r = Some e" and d': "d' = ?t e" and pe: "?p e"
        and lt: "?t e < d"
        and pre: "\<forall>y\<in>set pre. ?p y \<longrightarrow> ?t e < ?t y"
        and post: "\<forall>y\<in>set post. ?p y \<longrightarrow> ?t e \<le> ?t y"
      from False lt have "?p x \<longrightarrow> ?t e < ?t x" by (auto simp: not_less intro: less_le_trans)
      with xs r d' pe lt pre post
      have "x # xs = (x # pre) @ e # post \<and> r = Some e \<and> d' = ?t e \<and> ?p e \<and> ?t e < d \<and>
          (\<forall>y\<in>set (x # pre). ?p y \<longrightarrow> ?t e < ?t y) \<and> (\<forall>y\<in>set post. ?p y \<longrightarrow> ?t e \<le> ?t y)"
        by simp
      then show ?thesis by blast
    qed
  qed
qed

text \<open>
  The primary rule where some probationary candidate was last touched before \<open>MaxTick\<close>:
  both variants return the first probationary candidate of minimal \<^verbatim>\<open>lastTouch\<close> and
  change nothing.
\<close>

lemma getVictim_primary_rule:
  assumes "\<exists>x\<in>set cs. segment (mem w (replacementData x)) = Probation \<and>
             lastTouch (mem w (replacementData x)) < MaxTick"
  shows "\<exists>pre e post. cs = pre @ e # post \<and>
           getVictim w cs now = Inr (Some e, w) \<and>
           getVictim_strict w cs = Inr (Some e, w) \<and>
           segment (mem w (replacementData e)) = Probation \<and>
           (\<forall>x\<in>set pre. segment (mem w (replacementData x)) = Probation \<longrightarrow>
               lastTouch (mem w (replacementData e)) < lastTouch (mem w (replacementData x))) \<and>
           (\<forall>x\<in>set post. segment (mem w (replacementData x)) = Probation \<longrightarrow>
               lastTouch (mem w (replacementData e)) \<le> lastTouch (mem w (replacementData x)))"
proof -
  obtain r c' where sl: "strict_loop (mem w) cs (None, MaxTick) = (r, c')"
    by (cases "strict_loop (mem w) cs (None, MaxTick)") auto
  from strict_loop_first_min [OF sl] assms obtain pre e post where
    cs: "cs = pre @ e # post" and r: "r = Some e"
    and pe: "segment (mem w (replacementData e)) = Probation"
    and pre: "\<forall>x\<in>set pre. segment (mem w (replacementData x)) = Probation \<longrightarrow>
               lastTouch (mem w (replacementData e)) < lastTouch (mem w (replacementData x))"
    and post: "\<forall>x\<in>set post. segment (mem w (replacementData x)) = Probation \<longrightarrow>
               lastTouch (mem w (replacementData e)) \<le> lastTouch (mem w (replacementData x))"
    by blast
  from cs have ne: "cs \<noteq> []" by simp
  from sl r ne have s: "getVictim_strict w cs = Inr (Some e, w)"
    by (simp add: getVictim_strict_def)
  from getVictim_strict_agrees [OF s] have "getVictim w cs now = Inr (Some e, w)" .
  with s cs pe pre post show ?thesis by blast
qed

lemma getVictim_strict_aborts_iff:
  "getVictim_strict w cs = Inl AssertionFailure \<longleftrightarrow>
     \<not> (\<exists>x\<in>set cs. segment (mem w (replacementData x)) = Probation \<and>
             lastTouch (mem w (replacementData x)) < MaxTick)"
proof
  assume ab: "getVictim_strict w cs = Inl AssertionFailure"
  show "\<not> (\<exists>x\<in>set cs. segment (mem w (replacementData x)) = Probation \<and>
             lastTouch (mem w (replacementData x)) < MaxTick)"
  proof
    assume "\<exists>x\<in>set cs. segment (mem w (replacementData x)) = Probation \<and>
             lastTouch (mem w (replacementData x)) < MaxTick"
    from getVictim_primary_rule [OF this, of undefined] ab show False by auto
  qed
next
  assume none: "\<not> (\<exists>x\<in>set cs. segment (mem w (replacementData x)) = Probation \<and>
             lastTouch (mem w (replacementData x)) < MaxTick)"
  obtain r c' where sl: "strict_loop (mem w) cs (None, MaxTick) = (r, c')"
    by (cases "strict_loop (mem w) cs (None, MaxTick)") auto
  from strict_loop_first_min [OF sl] none have "r = None" by auto
  with sl show "getVictim_strict w cs = Inl AssertionFailure"
    by (simp add: getVictim_strict_def)
qed

text \<open>
  The fallback rule where every candidate is protected and one of them was last touched
  before \<open>MaxTick\<close>: the first candidate of minimal \<^verbatim>\<open>lastTouch\<close> is demoted and
  returned.
\<close>

lemma getVictim_fallback_rule:
  assumes allp: "\<forall>x\<in>set cs. segment (mem w (replacementData x)) = Protected"
    and some: "\<exists>x\<in>set cs. lastTouch (mem w (replacementData x)) < MaxTick"
  shows "\<exists>pre e post. cs = pre @ e # post \<and>
           getVictim w cs now =
             Inr (Some e, w\<lparr>slru := find_erase (slru w) (replacementData e),
                             mem := (mem w)(replacementData e :=
                               (mem w (replacementData e))\<lparr>segment := Probation, lastTouch := now\<rparr>)\<rparr>) \<and>
           (\<forall>x\<in>set pre. lastTouch (mem w (replacementData e)) < lastTouch (mem w (replacementData x))) \<and>
           (\<forall>x\<in>set post. lastTouch (mem w (replacementData e)) \<le> lastTouch (mem w (replacementData x)))"
proof -
  obtain a r c' d' where vl: "victim_loop (mem w) cs (None, None, MaxTick, MaxTick) = (a, r, c', d')"
    by (metis prod_cases4)
  have "a = None"
  proof (cases a)
    case None
    then show ?thesis .
  next
    case (Some e)
    with vl victim_loop_prob [of "mem w" cs None None MaxTick MaxTick e r c' d'] allp
    show ?thesis by auto
  qed
  moreover from victim_loop_prot_first_min [OF vl] allp some obtain pre e post where
    cs: "cs = pre @ e # post" and r: "r = Some e"
    and pre: "\<forall>x\<in>set pre. lastTouch (mem w (replacementData e)) < lastTouch (mem w (replacementData x))"
    and post: "\<forall>x\<in>set post. lastTouch (mem w (replacementData e)) \<le> lastTouch (mem w (replacementData x))"
    by (elim disjE exE conjE) auto
  moreover from cs have "cs \<noteq> []" by simp
  ultimately have "getVictim w cs now =
             Inr (Some e, w\<lparr>slru := find_erase (slru w) (replacementData e),
                             mem := (mem w)(replacementData e :=
                               (mem w (replacementData e))\<lparr>segment := Probation, lastTouch := now\<rparr>)\<rparr>)"
    using vl by (simp add: getVictim_def Let_def)
  with cs pre post show ?thesis by blast
qed

lemma getVictim_aborts_iff:
  "getVictim w cs now = Inl AssertionFailure \<longleftrightarrow>
     (\<forall>x\<in>set cs. lastTouch (mem w (replacementData x)) = MaxTick)"
proof
  assume ab: "getVictim w cs now = Inl AssertionFailure"
  obtain a r c' d' where vl: "victim_loop (mem w) cs (None, None, MaxTick, MaxTick) = (a, r, c', d')"
    by (metis prod_cases4)
  obtain r2 c2 where sl: "strict_loop (mem w) cs (None, MaxTick) = (r2, c2)"
    by (cases "strict_loop (mem w) cs (None, MaxTick)") auto
  from victim_loop_strict [of "mem w" cs None None MaxTick MaxTick] vl sl have ar: "r2 = a" by simp
  show "\<forall>x\<in>set cs. lastTouch (mem w (replacementData x)) = MaxTick"
  proof (cases "cs = []")
    case True
    then show ?thesis by simp
  next
    case False
    with ab vl have an: "a = None" and rn: "r = None"
      by (auto simp: getVictim_def Let_def split: option.splits)
    from strict_loop_first_min [OF sl] ar an
    have p: "\<forall>x\<in>set cs. segment (mem w (replacementData x)) = Probation \<longrightarrow>
                \<not> lastTouch (mem w (replacementData x)) < MaxTick"
      by auto
    from victim_loop_prot_first_min [OF vl] rn
    have q: "\<forall>x\<in>set cs. segment (mem w (replacementData x)) = Protected \<longrightarrow>
                \<not> lastTouch (mem w (replacementData x)) < MaxTick"
      by auto
    show ?thesis
    proof
      fix x assume x: "x \<in> set cs"
      from p q x have "\<not> lastTouch (mem w (replacementData x)) < MaxTick"
        by (cases "segment (mem w (replacementData x))") auto
      then show "lastTouch (mem w (replacementData x)) = MaxTick"
        by (simp add: word_less_MaxTick)
    qed
  qed
next
  assume all: "\<forall>x\<in>set cs. lastTouch (mem w (replacementData x)) = MaxTick"
  obtain a r c' d' where vl: "victim_loop (mem w) cs (None, None, MaxTick, MaxTick) = (a, r, c', d')"
    by (metis prod_cases4)
  obtain r2 c2 where sl: "strict_loop (mem w) cs (None, MaxTick) = (r2, c2)"
    by (cases "strict_loop (mem w) cs (None, MaxTick)") auto
  from victim_loop_strict [of "mem w" cs None None MaxTick MaxTick] vl sl have ar: "r2 = a" by simp
  from strict_loop_first_min [OF sl] ar all have an: "a = None" by auto
  from victim_loop_prot_first_min [OF vl] all have rn: "r = None" by auto
  from vl an rn show "getVictim w cs now = Inl AssertionFailure"
    by (simp add: getVictim_def)
qed

subsection \<open>The stored \<^verbatim>\<open>probationSize\<close> is never read\<close>

lemma find_erase_probationSize:
  "find_erase (p\<lparr>probationSize := q\<rparr>) rd = (find_erase p rd)\<lparr>probationSize := q\<rparr>"
  by (simp add: find_erase_def)

lemma touch_probationSize:
  "touch (w\<lparr>slru := (slru w)\<lparr>probationSize := q\<rparr>\<rparr>) rd now =
     (case touch w rd now of
        Inl e \<Rightarrow> Inl e
      | Inr w' \<Rightarrow> Inr (w'\<lparr>slru := (slru w')\<lparr>probationSize := q\<rparr>\<rparr>))"
  by (simp add: touch_def Let_def split: option.splits)

lemma getVictim_probationSize:
  "getVictim (w\<lparr>slru := (slru w)\<lparr>probationSize := q\<rparr>\<rparr>) cs now =
     (case getVictim w cs now of
        Inl e \<Rightarrow> Inl e
      | Inr (v, w') \<Rightarrow> Inr (v, w'\<lparr>slru := (slru w')\<lparr>probationSize := q\<rparr>\<rparr>))"
  by (simp add: getVictim_def Let_def find_erase_probationSize split: prod.splits option.splits)

lemma step_probationSize:
  "step (w\<lparr>slru := (slru w)\<lparr>probationSize := q\<rparr>\<rparr>) c =
     (case step w c of
        Inl e \<Rightarrow> Inl e
      | Inr (r, w') \<Rightarrow> Inr (r, w'\<lparr>slru := (slru w')\<lparr>probationSize := q\<rparr>\<rparr>))"
proof (cases c)
  case InstantiateEntry
  then show ?thesis by (simp add: instantiateEntry_def)
next
  case (Invalidate rd)
  then show ?thesis by (simp add: invalidate_def Let_def find_erase_probationSize)
next
  case (Reset rd t)
  then show ?thesis by (simp add: reset_def Let_def find_erase_probationSize)
next
  case (Touch rd t)
  then show ?thesis by (simp add: touch_probationSize split: sum.splits)
next
  case (GetVictim cs t)
  then show ?thesis by (simp add: getVictim_probationSize split: sum.splits)
qed

lemma run_probationSize:
  "run (w\<lparr>slru := (slru w)\<lparr>probationSize := q\<rparr>\<rparr>) calls =
     (case run w calls of
        Inl e \<Rightarrow> Inl e
      | Inr (rs, w') \<Rightarrow> Inr (rs, w'\<lparr>slru := (slru w')\<lparr>probationSize := q\<rparr>\<rparr>))"
proof (induction calls arbitrary: w)
  case Nil
  show ?case by simp
next
  case (Cons c cs)
  show ?case
  proof (cases "step w c")
    case (Inl e)
    then show ?thesis by (simp add: step_probationSize)
  next
    case (Inr p)
    obtain r w1 where p: "p = (r, w1)" by (cases p)
    with Inr Cons.IH [of w1] show ?thesis
      by (simp add: step_probationSize split: sum.splits)
  qed
qed

section \<open>Claims\<close>

text \<open>
  C1. Tracker invariant. Start from a policy whose \<^verbatim>\<open>protectedEntries\<close> is 0 and whose
  \<^verbatim>\<open>protectedList\<close> is empty (so every entry it already governs is in probation). After
  every sequence of \<^verbatim>\<open>instantiateEntry\<close>, \<^verbatim>\<open>touch\<close>, \<^verbatim>\<open>reset\<close>, \<^verbatim>\<open>invalidate\<close> and
  \<^verbatim>\<open>getVictim\<close> calls that the program survives, \<^verbatim>\<open>protectedEntries\<close> is the number of
  elements of \<^verbatim>\<open>protectedList\<close>, it is at most \<^verbatim>\<open>protectedSize\<close>, and every governed entry
  is \<open>Protected\<close> if and only if it is in \<^verbatim>\<open>protectedList\<close>, where it then occurs exactly
  once.
\<close>

theorem tracker_invariant:
  assumes "protectedEntries (slru w0) = 0"
    and "protectedList (slru w0) = []"
    and "\<forall>a<allocated w0. segment (mem w0 a) = Probation"
    and "run w0 calls = Inr (rs, w)"
  shows "unat (protectedEntries (slru w)) = length (protectedList (slru w)) \<and>
         protectedEntries (slru w) \<le> protectedSize (slru w) \<and>
         (\<forall>a<allocated w.
            (segment (mem w a) = Protected \<longleftrightarrow> a \<in> set (protectedList (slru w))) \<and>
            (a \<in> set (protectedList (slru w)) \<longrightarrow> count_list (protectedList (slru w)) a = 1))"
proof -
  from assms(1-3) have "tracker_inv w0"
    by (simp add: tracker_inv_def)
  with assms(4) have inv: "tracker_inv w"
    by (auto intro: inv_run)
  then have "distinct (protectedList (slru w))"
    by (simp add: tracker_inv_def)
  then have "\<forall>a. a \<in> set (protectedList (slru w)) \<longrightarrow> count_list (protectedList (slru w)) a = 1"
    by (simp add: distinct_count_list)
  with inv show ?thesis
    by (simp add: tracker_inv_def)
qed

theorem tracker_invariant_witness:
  "\<exists>rs w. run (world_new 1 4)
            [InstantiateEntry, InstantiateEntry, Touch 0 5, Touch 1 6,
             GetVictim [\<lparr>replacementData = 0\<rparr>, \<lparr>replacementData = 1\<rparr>] 7, Invalidate 1] = Inr (rs, w) \<and>
          rs = [Entry 0, Entry 1, Done, Done, Victim (Some \<lparr>replacementData = 0\<rparr>), Done] \<and>
          protectedList (slru w) = [] \<and>
          unat (protectedEntries (slru w)) = length (protectedList (slru w)) \<and>
          protectedEntries (slru w) \<le> protectedSize (slru w) \<and>
          (\<forall>a<allocated w.
            (segment (mem w a) = Protected \<longleftrightarrow> a \<in> set (protectedList (slru w))) \<and>
            (a \<in> set (protectedList (slru w)) \<longrightarrow> count_list (protectedList (slru w)) a = 1))"
proof -
  let ?calls = "[InstantiateEntry, InstantiateEntry, Touch 0 5, Touch 1 6,
             GetVictim [\<lparr>replacementData = 0\<rparr>, \<lparr>replacementData = 1\<rparr>] 7, Invalidate 1]"
  have "\<exists>rs w. run (world_new 1 4) ?calls = Inr (rs, w) \<and>
          rs = [Entry 0, Entry 1, Done, Done, Victim (Some \<lparr>replacementData = 0\<rparr>), Done] \<and>
          protectedList (slru w) = []"
    by (simp add: world_new_def SLRU_new_def SLRUReplData_new_def instantiateEntry_def
        touch_def find_lru_def erase_at_def getVictim_def MaxTick_def invalidate_def
        find_erase_def Let_def)
  then obtain rs w where r: "run (world_new 1 4) ?calls = Inr (rs, w)"
    and rs: "rs = [Entry 0, Entry 1, Done, Done, Victim (Some \<lparr>replacementData = 0\<rparr>), Done]"
    and l: "protectedList (slru w) = []"
    by blast
  have a: "protectedEntries (slru (world_new 1 4)) = 0"
    and b: "protectedList (slru (world_new 1 4)) = []"
    and c: "\<forall>a<allocated (world_new 1 4). segment (mem (world_new 1 4) a) = Probation"
    by (simp_all add: world_new_def SLRU_new_def)
  from tracker_invariant [OF a b c r] r rs l show ?thesis
    by blast
qed

text \<open>
  C2. Promotion threshold. The claim that a freshly instantiated entry stays in
  \<open>Probation\<close> after one \<^verbatim>\<open>touch\<close> fails: in \<open>fresh_world\<close> the entry is as the constructor
  left it, the protected segment has room, and one \<^verbatim>\<open>touch\<close> makes it \<open>Protected\<close>.
\<close>

theorem touch_once_counterexample:
  "mem fresh_world 0 = SLRUReplData_new \<and>
   protectedEntries (slru fresh_world) < protectedSize (slru fresh_world) \<and>
   \<not> isl (touch fresh_world 0 5) \<and>
   segment (mem (projr (touch fresh_world 0 5)) 0) = Protected \<and>
   segment (mem (projr (touch fresh_world 0 5)) 0) \<noteq> Probation"
  by (simp add: fresh_world_def world_new_def SLRU_new_def SLRUReplData_new_def
      instantiateEntry_def touch_def Let_def)

text \<open>
  C2, as the code has it. For an entry in \<open>Probation\<close> under a policy with spare protected
  capacity, the first \<^verbatim>\<open>touch\<close> already makes the entry \<open>Protected\<close>, appends it to
  \<^verbatim>\<open>protectedList\<close>, increments \<^verbatim>\<open>protectedEntries\<close> and sets its \<^verbatim>\<open>lastTouch\<close>, and
  changes nothing else. A second \<^verbatim>\<open>touch\<close> leaves it \<open>Protected\<close> and changes only its
  \<^verbatim>\<open>lastTouch\<close>: the policy object, every other entry and the set of entries stay as
  they were.
\<close>

theorem touch_promotes_at_once:
  assumes "segment (mem w rd) = Probation"
    and "protectedEntries (slru w) < protectedSize (slru w)"
  shows "\<exists>w1 w2.
           w1 = w\<lparr>slru := (slru w)\<lparr>protectedList := protectedList (slru w) @ [rd],
                                     protectedEntries := protectedEntries (slru w) + 1\<rparr>,
                   mem := (mem w)(rd := (mem w rd)\<lparr>segment := Protected, lastTouch := t1\<rparr>)\<rparr> \<and>
           touch w rd t1 = Inr w1 \<and> segment (mem w1 rd) = Protected \<and>
           lastTouch (mem w1 rd) = t1 \<and>
           protectedList (slru w1) = protectedList (slru w) @ [rd] \<and>
           protectedEntries (slru w1) = protectedEntries (slru w) + 1 \<and>
           w2 = w1\<lparr>mem := (mem w1)(rd := (mem w1 rd)\<lparr>lastTouch := t2\<rparr>)\<rparr> \<and>
           touch w1 rd t2 = Inr w2 \<and> segment (mem w2 rd) = Protected \<and>
           lastTouch (mem w2 rd) = t2 \<and>
           slru w2 = slru w1 \<and> allocated w2 = allocated w \<and>
           (\<forall>a. a \<noteq> rd \<longrightarrow> mem w2 a = mem w a)"
proof -
  let ?w1 = "w\<lparr>slru := (slru w)\<lparr>protectedList := protectedList (slru w) @ [rd],
                                     protectedEntries := protectedEntries (slru w) + 1\<rparr>,
                   mem := (mem w)(rd := (mem w rd)\<lparr>segment := Protected, lastTouch := t1\<rparr>)\<rparr>"
  let ?w2 = "?w1\<lparr>mem := (mem ?w1)(rd := (mem ?w1 rd)\<lparr>lastTouch := t2\<rparr>)\<rparr>"
  from assms have first: "touch w rd t1 = Inr ?w1"
    by (simp add: touch_def Let_def)
  have second: "touch ?w1 rd t2 = Inr ?w2"
    by (simp add: touch_def Let_def)
  have props: "segment (mem ?w1 rd) = Protected" "lastTouch (mem ?w1 rd) = t1"
    "protectedList (slru ?w1) = protectedList (slru w) @ [rd]"
    "protectedEntries (slru ?w1) = protectedEntries (slru w) + 1"
    "segment (mem ?w2 rd) = Protected" "lastTouch (mem ?w2 rd) = t2"
    "slru ?w2 = slru ?w1" "allocated ?w2 = allocated w"
    "\<forall>a. a \<noteq> rd \<longrightarrow> mem ?w2 a = mem w a"
    by simp_all
  from first second props show ?thesis
    by blast
qed

theorem touch_promotes_at_once_witness:
  "segment (mem fresh_world 0) = Probation \<and>
   protectedEntries (slru fresh_world) < protectedSize (slru fresh_world) \<and>
   (\<exists>w1 w2.
           w1 = fresh_world\<lparr>slru := (slru fresh_world)
                     \<lparr>protectedList := protectedList (slru fresh_world) @ [0],
                      protectedEntries := protectedEntries (slru fresh_world) + 1\<rparr>,
                   mem := (mem fresh_world)
                     (0 := (mem fresh_world 0)\<lparr>segment := Protected, lastTouch := 5\<rparr>)\<rparr> \<and>
           touch fresh_world 0 5 = Inr w1 \<and> segment (mem w1 0) = Protected \<and>
           lastTouch (mem w1 0) = 5 \<and>
           protectedList (slru w1) = [0] \<and>
           protectedEntries (slru w1) = 1 \<and>
           w2 = w1\<lparr>mem := (mem w1)(0 := (mem w1 0)\<lparr>lastTouch := 6\<rparr>)\<rparr> \<and>
           touch w1 0 6 = Inr w2 \<and> segment (mem w2 0) = Protected \<and>
           lastTouch (mem w2 0) = 6 \<and>
           slru w2 = slru w1 \<and> allocated w2 = 1 \<and>
           mem w2 1 = mem fresh_world 1)"
proof -
  have a: "segment (mem fresh_world 0) = Probation"
    by (simp add: fresh_world_def world_new_def SLRUReplData_new_def instantiateEntry_def)
  have b: "protectedEntries (slru fresh_world) < protectedSize (slru fresh_world)"
    by (simp add: fresh_world_def world_new_def SLRU_new_def instantiateEntry_def)
  have c: "protectedList (slru fresh_world) = []" "protectedEntries (slru fresh_world) = 0"
    "allocated fresh_world = 1"
    by (simp_all add: fresh_world_def world_new_def SLRU_new_def instantiateEntry_def)
  from touch_promotes_at_once [OF a b, of 5 6] obtain w1 w2 where
    r: "w1 = fresh_world\<lparr>slru := (slru fresh_world)
                     \<lparr>protectedList := protectedList (slru fresh_world) @ [0],
                      protectedEntries := protectedEntries (slru fresh_world) + 1\<rparr>,
                   mem := (mem fresh_world)
                     (0 := (mem fresh_world 0)\<lparr>segment := Protected, lastTouch := 5\<rparr>)\<rparr>"
      "touch fresh_world 0 5 = Inr w1" "segment (mem w1 0) = Protected"
      "lastTouch (mem w1 0) = 5"
      "protectedList (slru w1) = protectedList (slru fresh_world) @ [0]"
      "protectedEntries (slru w1) = protectedEntries (slru fresh_world) + 1"
      "w2 = w1\<lparr>mem := (mem w1)(0 := (mem w1 0)\<lparr>lastTouch := 6\<rparr>)\<rparr>"
      "touch w1 0 6 = Inr w2" "segment (mem w2 0) = Protected"
      "lastTouch (mem w2 0) = 6"
      "slru w2 = slru w1" "allocated w2 = allocated fresh_world"
      "\<forall>a. a \<noteq> 0 \<longrightarrow> mem w2 a = mem fresh_world a"
    by blast
  from r(5,6,12,13) c have d: "protectedList (slru w1) = [0]" "protectedEntries (slru w1) = 1"
    "allocated w2 = 1" "mem w2 1 = mem fresh_world 1"
    by simp_all
  from a b r(1-4) d(1,2) r(7-11) d(3,4) show ?thesis
    by blast
qed

text \<open>
  C3. Victim preference. In \<open>max_tick_world\<close> entry 0 is in \<open>Probation\<close> with
  \<^verbatim>\<open>lastTouch\<close> equal to \<open>MaxTick\<close>, the value \<^verbatim>\<open>minProb\<close> starts from, and entry 1 is
  \<open>Protected\<close>. The strict comparison never selects entry 0, and \<^verbatim>\<open>getVictim\<close> returns
  the protected entry 1 although a probationary candidate is present.
\<close>

theorem getVictim_skips_max_tick_probation:
  "segment (mem max_tick_world 0) = Probation \<and>
   segment (mem max_tick_world 1) = Protected \<and>
   map_sum id fst (getVictim max_tick_world
       [\<lparr>replacementData = 0\<rparr>, \<lparr>replacementData = 1\<rparr>] MaxTick)
     = Inr (Some \<lparr>replacementData = 1\<rparr>)"
  by (simp add: getVictim_def max_tick_world_def MaxTick_def Let_def)

text \<open>
  C4. Fallback rule. In \<open>max_tick_protected_world\<close> the only candidate is \<open>Protected\<close>, is
  in \<^verbatim>\<open>protectedList\<close> and has \<^verbatim>\<open>lastTouch\<close> equal to \<open>MaxTick\<close>. \<^verbatim>\<open>getVictim\<close> does not
  return and demote it: \<^verbatim>\<open>assert(oldestProt)\<close> fails.
\<close>

theorem getVictim_fallback_aborts_at_max_tick:
  "segment (mem max_tick_protected_world 0) = Protected \<and>
   protectedList (slru max_tick_protected_world) = [0] \<and>
   getVictim max_tick_protected_world [\<lparr>replacementData = 0\<rparr>] MaxTick = Inl AssertionFailure"
  by (simp add: getVictim_def max_tick_protected_world_def MaxTick_def Let_def)

text \<open>
  C5. Demotion on a full protected segment. \<^verbatim>\<open>touch\<close> is called on an entry in
  \<open>Probation\<close> while \<^verbatim>\<open>protectedEntries\<close> equals \<^verbatim>\<open>protectedSize\<close>; as the tracker invariant
  has it, \<^verbatim>\<open>protectedList\<close> has no duplicates and does not hold the touched entry, and it
  is not empty. Then the first member of \<^verbatim>\<open>protectedList\<close> with the smallest
  \<^verbatim>\<open>lastTouch\<close> is set to \<open>Probation\<close> and removed from the list with its \<^verbatim>\<open>lastTouch\<close>
  unchanged, the touched entry becomes \<open>Protected\<close> and is appended to the list,
  \<^verbatim>\<open>protectedEntries\<close> is unchanged and the touched entry's \<^verbatim>\<open>lastTouch\<close> is the current
  tick.
\<close>

theorem touch_demotion_on_full:
  assumes "segment (mem w rd) = Probation"
    and "protectedEntries (slru w) = protectedSize (slru w)"
    and "protectedList (slru w) \<noteq> []"
    and "distinct (protectedList (slru w))"
    and "rd \<notin> set (protectedList (slru w))"
  shows "\<exists>k w'. touch w rd now = Inr w' \<and>
           k < length (protectedList (slru w)) \<and>
           (\<forall>j<length (protectedList (slru w)).
              lastTouch (mem w (protectedList (slru w) ! k)) \<le> lastTouch (mem w (protectedList (slru w) ! j))) \<and>
           (\<forall>j<k. lastTouch (mem w (protectedList (slru w) ! k)) < lastTouch (mem w (protectedList (slru w) ! j))) \<and>
           segment (mem w' (protectedList (slru w) ! k)) = Probation \<and>
           lastTouch (mem w' (protectedList (slru w) ! k)) = lastTouch (mem w (protectedList (slru w) ! k)) \<and>
           protectedList (slru w') = remove1 (protectedList (slru w) ! k) (protectedList (slru w)) @ [rd] \<and>
           protectedList (slru w) ! k \<notin> set (protectedList (slru w')) \<and>
           segment (mem w' rd) = Protected \<and>
           rd \<in> set (protectedList (slru w')) \<and>
           protectedEntries (slru w') = protectedEntries (slru w) \<and>
           lastTouch (mem w' rd) = now"
proof -
  let ?l = "protectedList (slru w)"
  from assms(3) have "find_lru (mem w) ?l \<noteq> None"
    by (simp add: find_lru_None)
  then obtain k where fl: "find_lru (mem w) ?l = Some k"
    by auto
  from find_lru_min [OF fl] have k: "k < length ?l"
    and mn: "\<forall>j<length ?l. lastTouch (mem w (?l ! k)) \<le> lastTouch (mem w (?l ! j))"
    and fst: "\<forall>j<k. lastTouch (mem w (?l ! k)) < lastTouch (mem w (?l ! j))"
    by auto
  from k have lin: "?l ! k \<in> set ?l" by simp
  with assms(5) have ne: "?l ! k \<noteq> rd" by auto
  have er: "erase_at k ?l = remove1 (?l ! k) ?l"
    by (rule erase_at_remove1 [OF assms(4) k])
  from assms(4) have out: "?l ! k \<notin> set (remove1 (?l ! k) ?l)" by simp
  from assms(1,2) fl ne er out have
    "\<exists>w'. touch w rd now = Inr w' \<and>
           segment (mem w' (?l ! k)) = Probation \<and>
           lastTouch (mem w' (?l ! k)) = lastTouch (mem w (?l ! k)) \<and>
           protectedList (slru w') = remove1 (?l ! k) ?l @ [rd] \<and>
           ?l ! k \<notin> set (protectedList (slru w')) \<and>
           segment (mem w' rd) = Protected \<and>
           rd \<in> set (protectedList (slru w')) \<and>
           protectedEntries (slru w') = protectedEntries (slru w) \<and>
           lastTouch (mem w' rd) = now"
    by (simp add: touch_def Let_def)
  with k mn fst show ?thesis by blast
qed

theorem touch_demotion_on_full_witness:
  "segment (mem demo_world 2) = Probation \<and>
   protectedEntries (slru demo_world) = protectedSize (slru demo_world) \<and>
   protectedList (slru demo_world) = [0, 1] \<and>
   lastTouch (mem demo_world 0) = 8 \<and> lastTouch (mem demo_world 1) = 3 \<and>
   map_sum id (\<lambda>w'. (protectedList (slru w'), protectedEntries (slru w'), mem w' 1, mem w' 2))
     (touch demo_world 2 9)
     = Inr ([0, 2], 2, \<lparr>segment = Probation, lastTouch = 3\<rparr>,
            \<lparr>segment = Protected, lastTouch = 9\<rparr>) \<and>
   (\<exists>k w'. touch demo_world 2 9 = Inr w' \<and>
           k < length (protectedList (slru demo_world)) \<and>
           (\<forall>j<length (protectedList (slru demo_world)).
              lastTouch (mem demo_world (protectedList (slru demo_world) ! k))
                \<le> lastTouch (mem demo_world (protectedList (slru demo_world) ! j))) \<and>
           (\<forall>j<k. lastTouch (mem demo_world (protectedList (slru demo_world) ! k))
                < lastTouch (mem demo_world (protectedList (slru demo_world) ! j))) \<and>
           segment (mem w' (protectedList (slru demo_world) ! k)) = Probation \<and>
           lastTouch (mem w' (protectedList (slru demo_world) ! k))
             = lastTouch (mem demo_world (protectedList (slru demo_world) ! k)) \<and>
           protectedList (slru w')
             = remove1 (protectedList (slru demo_world) ! k) (protectedList (slru demo_world)) @ [2] \<and>
           protectedList (slru demo_world) ! k \<notin> set (protectedList (slru w')) \<and>
           segment (mem w' 2) = Protected \<and>
           2 \<in> set (protectedList (slru w')) \<and>
           protectedEntries (slru w') = protectedEntries (slru demo_world) \<and>
           lastTouch (mem w' 2) = 9)"
proof -
  have a: "segment (mem demo_world 2) = Probation"
    and b: "protectedEntries (slru demo_world) = protectedSize (slru demo_world)"
    and c: "protectedList (slru demo_world) \<noteq> []"
    and d: "distinct (protectedList (slru demo_world))"
    and e: "2 \<notin> set (protectedList (slru demo_world))"
    and l: "protectedList (slru demo_world) = [0, 1]"
    and t: "lastTouch (mem demo_world 0) = 8" "lastTouch (mem demo_world 1) = 3"
    by (simp_all add: demo_world_def)
  have ev: "map_sum id (\<lambda>w'. (protectedList (slru w'), protectedEntries (slru w'), mem w' 1, mem w' 2))
     (touch demo_world 2 9)
     = Inr ([0, 2], 2, \<lparr>segment = Probation, lastTouch = 3\<rparr>,
            \<lparr>segment = Protected, lastTouch = 9\<rparr>)"
    by (simp add: touch_def find_lru_def erase_at_def demo_world_def Let_def)
  note r = touch_demotion_on_full [OF a b c d e, of 9]
  from a b l t ev r show ?thesis
    by (intro conjI) assumption+
qed

text \<open>
  C6. The two variants of \<^verbatim>\<open>getVictim\<close>. On the candidates of \<open>max_tick_world\<close>, which
  include the probationary entry 0, the variants do not agree: the strict one fails its
  assertion and the one with the fallback returns the protected entry 1. On the single
  protected candidate of \<open>max_tick_protected_world\<close> both fail their assertions, so the
  fallback variant returns no victim there.
\<close>

theorem getVictim_variants_differ_with_probation_candidate:
  "segment (mem max_tick_world 0) = Probation \<and>
   getVictim_strict max_tick_world [\<lparr>replacementData = 0\<rparr>, \<lparr>replacementData = 1\<rparr>]
     = Inl AssertionFailure \<and>
   map_sum id fst (getVictim max_tick_world
       [\<lparr>replacementData = 0\<rparr>, \<lparr>replacementData = 1\<rparr>] MaxTick)
     = Inr (Some \<lparr>replacementData = 1\<rparr>) \<and>
   segment (mem max_tick_protected_world 0) = Protected \<and>
   getVictim_strict max_tick_protected_world [\<lparr>replacementData = 0\<rparr>] = Inl AssertionFailure \<and>
   getVictim max_tick_protected_world [\<lparr>replacementData = 0\<rparr>] MaxTick = Inl AssertionFailure"
  by (simp add: getVictim_def getVictim_strict_def max_tick_world_def
      max_tick_protected_world_def MaxTick_def Let_def)

text \<open>
  C7. Failure condition of \<^verbatim>\<open>getVictim\<close>. The candidate list holding entry 0 of
  \<open>max_tick_world\<close> is not empty and its entry is in \<open>Probation\<close>, yet both variants fail
  their assertion on it.
\<close>

theorem getVictim_asserts_on_nonempty_candidates:
  "segment (mem max_tick_world 0) = Probation \<and>
   [\<lparr>replacementData = 0\<rparr>] \<noteq> [] \<and>
   getVictim_strict max_tick_world [\<lparr>replacementData = 0\<rparr>] = Inl AssertionFailure \<and>
   getVictim max_tick_world [\<lparr>replacementData = 0\<rparr>] MaxTick = Inl AssertionFailure"
  by (simp add: getVictim_def getVictim_strict_def max_tick_world_def MaxTick_def Let_def)

text \<open>
  C8. Postcondition of \<^verbatim>\<open>invalidate\<close>. After \<^verbatim>\<open>invalidate\<close> the entry is in \<open>Probation\<close>
  and its \<^verbatim>\<open>lastTouch\<close> is \<^verbatim>\<open>Tick(0)\<close>. If it was \<open>Protected\<close> and in \<^verbatim>\<open>protectedList\<close>,
  \<^verbatim>\<open>protectedEntries\<close> is decremented (by exactly one as a number unless the counter was
  0 and wraps) and one occurrence of the entry, the only one when the list has no
  duplicates, is removed from the list. If it was \<open>Protected\<close> but not in the list, the
  policy object is left as it was.
\<close>

theorem invalidate_postcondition:
  "segment (mem (invalidate w rd) rd) = Probation \<and>
   lastTouch (mem (invalidate w rd) rd) = 0 \<and>
   (segment (mem w rd) = Protected \<and> rd \<in> set (protectedList (slru w)) \<longrightarrow>
      protectedEntries (slru (invalidate w rd)) = protectedEntries (slru w) - 1 \<and>
      (protectedEntries (slru w) \<noteq> 0 \<longrightarrow>
         unat (protectedEntries (slru (invalidate w rd))) + 1 = unat (protectedEntries (slru w))) \<and>
      protectedList (slru (invalidate w rd)) = remove1 rd (protectedList (slru w)) \<and>
      length (protectedList (slru (invalidate w rd))) + 1 = length (protectedList (slru w)) \<and>
      (distinct (protectedList (slru w)) \<longrightarrow> rd \<notin> set (protectedList (slru (invalidate w rd))))) \<and>
   (segment (mem w rd) = Protected \<and> rd \<notin> set (protectedList (slru w)) \<longrightarrow>
      slru (invalidate w rd) = slru w)"
proof -
  have "protectedEntries (slru w) \<noteq> 0 \<Longrightarrow>
      unat (protectedEntries (slru w) - 1) + 1 = unat (protectedEntries (slru w))"
    by (simp add: unat_minus_one unat_gt_0)
  moreover have "rd \<in> set (protectedList (slru w)) \<Longrightarrow>
      length (remove1 rd (protectedList (slru w))) + 1 = length (protectedList (slru w))"
    using length_pos_if_in_set [of rd "protectedList (slru w)"] by (simp add: length_remove1)
  ultimately show ?thesis
    by (simp add: invalidate_def find_erase_def Let_def)
qed

theorem invalidate_postcondition_witness:
  "segment (mem demo_world 1) = Protected \<and> 1 \<in> set (protectedList (slru demo_world)) \<and>
   protectedEntries (slru demo_world) \<noteq> 0 \<and> distinct (protectedList (slru demo_world)) \<and>
   segment (mem (invalidate demo_world 1) 1) = Probation \<and>
   lastTouch (mem (invalidate demo_world 1) 1) = 0 \<and>
   protectedEntries (slru (invalidate demo_world 1)) = 1 \<and>
   unat (protectedEntries (slru (invalidate demo_world 1))) + 1 = unat (protectedEntries (slru demo_world)) \<and>
   protectedList (slru (invalidate demo_world 1)) = [0] \<and>
   1 \<notin> set (protectedList (slru (invalidate demo_world 1)))"
proof -
  have a: "segment (mem demo_world 1) = Protected \<and> 1 \<in> set (protectedList (slru demo_world))"
    and b: "protectedEntries (slru demo_world) \<noteq> 0"
    and c: "distinct (protectedList (slru demo_world))"
    and d: "protectedEntries (slru demo_world) - 1 = 1"
    and e: "remove1 1 (protectedList (slru demo_world)) = [0]"
    by (simp_all add: demo_world_def)
  from a b c d e invalidate_postcondition [of demo_world 1] show ?thesis
    by simp
qed

text \<open>
  C9. \<^verbatim>\<open>probation_size\<close> does not interfere. Two policies constructed with the same
  \<^verbatim>\<open>protected_size\<close> and different \<^verbatim>\<open>probation_size\<close>, run on the same calls at the same
  ticks, fail alike or return the same results and end in states that differ in nothing
  but the stored \<^verbatim>\<open>probationSize\<close>.
\<close>

theorem probation_size_noninterference:
  "run (world_new protected_size q2) calls =
     (case run (world_new protected_size q1) calls of
        Inl e \<Rightarrow> Inl e
      | Inr (rs, w) \<Rightarrow> Inr (rs, w\<lparr>slru := (slru w)\<lparr>probationSize := q2\<rparr>\<rparr>))"
proof -
  have "world_new protected_size q2 =
        (world_new protected_size q1)\<lparr>slru := (slru (world_new protected_size q1))\<lparr>probationSize := q2\<rparr>\<rparr>"
    by (simp add: world_new_def SLRU_new_def)
  then show ?thesis by (simp only: run_probationSize)
qed

theorem probation_size_noninterference_witness:
  "\<exists>w. run (world_new 1 4)
          [InstantiateEntry, InstantiateEntry, Touch 0 5, Touch 1 6,
           GetVictim [\<lparr>replacementData = 0\<rparr>, \<lparr>replacementData = 1\<rparr>] 7]
        = Inr ([Entry 0, Entry 1, Done, Done, Victim (Some \<lparr>replacementData = 0\<rparr>)], w) \<and>
       run (world_new 1 9)
          [InstantiateEntry, InstantiateEntry, Touch 0 5, Touch 1 6,
           GetVictim [\<lparr>replacementData = 0\<rparr>, \<lparr>replacementData = 1\<rparr>] 7]
        = Inr ([Entry 0, Entry 1, Done, Done, Victim (Some \<lparr>replacementData = 0\<rparr>)],
               w\<lparr>slru := (slru w)\<lparr>probationSize := 9\<rparr>\<rparr>)"
proof -
  let ?calls = "[InstantiateEntry, InstantiateEntry, Touch 0 5, Touch 1 6,
           GetVictim [\<lparr>replacementData = 0\<rparr>, \<lparr>replacementData = 1\<rparr>] 7]"
  have "\<exists>w. run (world_new 1 4) ?calls
        = Inr ([Entry 0, Entry 1, Done, Done, Victim (Some \<lparr>replacementData = 0\<rparr>)], w)"
    by (simp add: world_new_def SLRU_new_def SLRUReplData_new_def instantiateEntry_def
        touch_def find_lru_def erase_at_def getVictim_def MaxTick_def Let_def)
  then obtain w where r: "run (world_new 1 4) ?calls
        = Inr ([Entry 0, Entry 1, Done, Done, Victim (Some \<lparr>replacementData = 0\<rparr>)], w)"
    by blast
  with probation_size_noninterference [of 1 9 ?calls 4] show ?thesis
    by simp
qed

text \<open>
  C10. Whenever either variant of \<^verbatim>\<open>getVictim\<close> returns, the pointer it returns is not
  null and is one of the candidates it was given.
\<close>

theorem getVictim_returns_candidate:
  "(getVictim w candidates t = Inr (v, w') \<longrightarrow> (\<exists>ent. v = Some ent \<and> ent \<in> set candidates)) \<and>
   (getVictim_strict w candidates = Inr (v, w') \<longrightarrow> (\<exists>ent. v = Some ent \<and> ent \<in> set candidates))"
proof (intro conjI impI)
  assume ok: "getVictim w candidates t = Inr (v, w')"
  obtain a b c d where vl: "victim_loop (mem w) candidates (None, None, MaxTick, MaxTick) = (a, b, c, d)"
    by (metis prod_cases4)
  show "\<exists>ent. v = Some ent \<and> ent \<in> set candidates"
  proof (cases a)
    case (Some ent)
    with vl victim_loop_prob [of "mem w" candidates None None MaxTick MaxTick ent b c d]
    have "ent \<in> set candidates" by simp
    moreover from ok vl Some have "v = Some ent"
      by (auto simp: getVictim_def split: if_splits)
    ultimately show ?thesis by simp
  next
    case None
    with ok vl obtain ent where b: "b = Some ent" and v: "v = Some ent"
      by (auto simp: getVictim_def Let_def split: if_splits option.splits)
    with vl victim_loop_prot [of "mem w" candidates None None MaxTick MaxTick a ent c d]
    show ?thesis by simp
  qed
next
  assume ok: "getVictim_strict w candidates = Inr (v, w')"
  obtain a c where sl: "strict_loop (mem w) candidates (None, MaxTick) = (a, c)"
    by (cases "strict_loop (mem w) candidates (None, MaxTick)") auto
  with ok obtain ent where a: "a = Some ent" and v: "v = Some ent"
    by (auto simp: getVictim_strict_def split: if_splits option.splits)
  with sl strict_loop_prob [of "mem w" candidates None MaxTick ent c]
  show "\<exists>ent. v = Some ent \<and> ent \<in> set candidates" by simp
qed

theorem getVictim_returns_candidate_witness:
  "getVictim demo_world [\<lparr>replacementData = 0\<rparr>, \<lparr>replacementData = 2\<rparr>] 9
     = Inr (Some \<lparr>replacementData = 2\<rparr>, demo_world) \<and>
   getVictim_strict demo_world [\<lparr>replacementData = 0\<rparr>, \<lparr>replacementData = 2\<rparr>]
     = Inr (Some \<lparr>replacementData = 2\<rparr>, demo_world) \<and>
   \<lparr>replacementData = 2\<rparr> \<in> set [\<lparr>replacementData = 0\<rparr>, \<lparr>replacementData = 2\<rparr>]"
proof -
  have a: "getVictim demo_world [\<lparr>replacementData = 0\<rparr>, \<lparr>replacementData = 2\<rparr>] 9
     = Inr (Some \<lparr>replacementData = 2\<rparr>, demo_world)"
    by (simp add: getVictim_def demo_world_def MaxTick_def Let_def)
  have b: "getVictim_strict demo_world [\<lparr>replacementData = 0\<rparr>, \<lparr>replacementData = 2\<rparr>]
     = Inr (Some \<lparr>replacementData = 2\<rparr>, demo_world)"
    by (simp add: getVictim_strict_def demo_world_def MaxTick_def Let_def)
  from a b getVictim_returns_candidate [of demo_world
      "[\<lparr>replacementData = 0\<rparr>, \<lparr>replacementData = 2\<rparr>]" 9 "Some \<lparr>replacementData = 2\<rparr>" demo_world]
  show ?thesis by simp
qed

end
